theory Spec2Isabelle
  imports Complex_Main
begin

section \<open>JavaScript values\<close>

text \<open>
  The scripts of the repository pass strings, numbers, \<open>undefined\<close> and arrays around.
  \<open>JNum\<close> stands for an integer-valued number, which is all that the values handed to
  promises and to \<open>memoize\<close> need (the numbers that \<open>BankAccount\<close> computes with are
  modelled in full below). A string is kept as the
  bytes of its literal in the source file, so the two emoji of \<open>script.js\<close> are three
  bytes each; no property below depends on the length of a string.
\<close>

datatype js_value = JUndefined | JNum int | JStr string | JArr "js_value list"

text \<open>
  Property names. \<open>x in cache\<close> and \<open>cache[x]\<close> first convert \<open>x\<close> to a property key:
  a string is its own key, an integer-valued number below \<open>10^21\<close> in magnitude is
  written in decimal, \<open>undefined\<close> is the key \<open>undefined\<close>, and an array is the
  comma-separated list of its elements (an \<open>undefined\<close> element contributing nothing).
\<close>

definition digit :: "nat \<Rightarrow> char" where
  "digit d = char_of (48 + d)"

function decimal_nat :: "nat \<Rightarrow> string" where
  "decimal_nat n = (if n < 10 then [digit n] else decimal_nat (n div 10) @ [digit (n mod 10)])"
  by pat_completeness auto
termination
  by (relation "measure (\<lambda>n. n)") auto

declare decimal_nat.simps [simp del]

definition decimal :: "int \<Rightarrow> string" where
  "decimal i = (if i < 0 then CHR ''-'' # decimal_nat (nat (- i)) else decimal_nat (nat i))"

fun join :: "string list \<Rightarrow> string" where
  "join [] = []"
| "join [s] = s"
| "join (s # t # ss) = s @ '','' @ join (t # ss)"

fun to_property_key :: "js_value \<Rightarrow> string"
  and element_string :: "js_value \<Rightarrow> string" where
  "to_property_key JUndefined = ''undefined''"
| "to_property_key (JNum i) = decimal i"
| "to_property_key (JStr s) = s"
| "to_property_key (JArr vs) = join (map element_string vs)"
| "element_string JUndefined = []"
| "element_string v = to_property_key v"

section \<open>Closures: \<open>memoize\<close> and \<open>BankAccount\<close>\<close>

subsection \<open>The cache object of \<open>memoize\<close>\<close>

text \<open>
  \<^verbatim>\<open>
  function memoize(fn) {
      const cache = {};
      return function(x) {
          if (x in cache) {
              console.log('Fetching from cache');
              return cache[x];
          }
          console.log('Calculating result');
          const result = fn(x);
          cache[x] = result;
          return result;
      };
  }
  \<close>
  \<open>cache\<close> is a plain object literal, so besides the properties the wrapper stores in it
  (its own properties, a map from property keys to values) it inherits the properties of
  \<open>Object.prototype\<close>. The operator \<open>in\<close> and the read \<open>cache[x]\<close> both look at the
  object's own properties first and then at the inherited ones.
\<close>

definition object_prototype_keys :: "string list" where
  "object_prototype_keys =
     [''constructor'', ''__defineGetter__'', ''__defineSetter__'', ''hasOwnProperty'',
      ''__lookupGetter__'', ''__lookupSetter__'', ''isPrototypeOf'', ''propertyIsEnumerable'',
      ''toString'', ''valueOf'', ''__proto__'', ''toLocaleString'']"

text \<open>
  What a call of the wrapper hands back: a value that \<open>fn\<close> produced (\<open>Val\<close>), a member
  of \<open>Object.prototype\<close> (\<open>ProtoMember\<close>, named by its key), or \<open>undefined\<close>.
\<close>

datatype 'v returned = Val 'v | ProtoMember string | Undef

definition has_property :: "(string \<rightharpoonup> 'v) \<Rightarrow> string \<Rightarrow> bool" where
  "has_property own k =
     (case own k of Some v \<Rightarrow> True | None \<Rightarrow> k \<in> set object_prototype_keys)"

definition get_property :: "(string \<rightharpoonup> 'v) \<Rightarrow> string \<Rightarrow> 'v returned" where
  "get_property own k =
     (case own k of
        Some v \<Rightarrow> Val v
      | None \<Rightarrow> if k \<in> set object_prototype_keys then ProtoMember k else Undef)"

text \<open>
  The state a wrapper works on: the own properties of its \<open>cache\<close>, the lines written by
  \<open>console.log\<close>, and the arguments with which \<open>fn\<close> has been invoked so far (\<open>calls\<close>
  records every evaluation of \<open>fn(x)\<close>; the source has no such variable, the record only
  makes the invocations countable).
\<close>

record ('a, 'v) memo_state =
  cache :: "string \<rightharpoonup> 'v"
  logged :: "string list"
  calls :: "'a list"

text \<open>\<open>memoize(fn)\<close> creates the empty cache; \<open>memoized fn key_of\<close> is the function it returns.
  \<open>key_of\<close> is the conversion of an argument to its property key (\<open>to_property_key\<close> for
  the values above). \<open>fn\<close> is a function that returns a value; a unit of work that fails
  asynchronously returns a rejected promise, which is a value like any other. The store
  \<open>cache[x] = result\<close> is only reached when \<open>x in cache\<close> is false, where it creates an
  own property.\<close>

definition memoize :: "('a, 'v) memo_state" where
  "memoize = \<lparr>cache = Map.empty, logged = [], calls = []\<rparr>"

definition memoized ::
  "('a \<Rightarrow> 'v) \<Rightarrow> ('a \<Rightarrow> string) \<Rightarrow> 'a \<Rightarrow> ('a, 'v) memo_state
     \<Rightarrow> 'v returned \<times> ('a, 'v) memo_state" where
  "memoized fn key_of x st =
     (if has_property (cache st) (key_of x)
      then (get_property (cache st) (key_of x),
            st\<lparr>logged := logged st @ [''Fetching from cache'']\<rparr>)
      else (let st1 = st\<lparr>logged := logged st @ [''Calculating result'']\<rparr>;
                result = fn x;
                st2 = st1\<lparr>calls := calls st1 @ [x]\<rparr>;
                st3 = st2\<lparr>cache := (cache st2)(key_of x \<mapsto> result)\<rparr>
            in (Val result, st3)))"

text \<open>A sequence of calls of one wrapper, with the values it returned in order.\<close>

fun memo_calls ::
  "('a \<Rightarrow> 'v) \<Rightarrow> ('a \<Rightarrow> string) \<Rightarrow> 'a list \<Rightarrow> ('a, 'v) memo_state
     \<Rightarrow> 'v returned list \<times> ('a, 'v) memo_state" where
  "memo_calls fn key_of [] st = ([], st)"
| "memo_calls fn key_of (x # xs) st =
     (let (r, st1) = memoized fn key_of x st;
          (rs, st2) = memo_calls fn key_of xs st1
      in (r # rs, st2))"

text \<open>\<^verbatim>\<open>const square = memoize(function(x) { return x * x; });\<close>\<close>

definition square :: "int \<Rightarrow> int" where
  "square x = x * x"

subsection \<open>Numbers\<close>


fun ulp_search :: "rat \<Rightarrow> int \<Rightarrow> nat \<Rightarrow> int" where
  "ulp_search q e 0 = e"
| "ulp_search q e (Suc n) = (if q < 2 powi (e + 53) then e else ulp_search q (e + 1) n)"













subsection \<open>\<open>BankAccount\<close>\<close>















section \<open>Promises\<close>

subsection \<open>The promise object\<close>

text \<open>
  The scripts build their promises with \<open>new Promise((resolve, reject) => ...)\<close>. As the
  repository's readme puts it, a promise is pending, fulfilled or rejected; \<open>resolve\<close>
  and \<open>reject\<close> are the two functions handed to the executor. Each of them settles a
  pending promise and returns without effect on a settled one. (Every \<open>resolve\<close> of the
  scripts is called with a plain value, never with another promise.)
\<close>

datatype ('v, 'e) promise_state = Pending | Fulfilled 'v | Rejected 'e

type_synonym js_promise = "(js_value, js_value) promise_state"

definition resolve :: "'v \<Rightarrow> ('v, 'e) promise_state \<Rightarrow> ('v, 'e) promise_state" where
  "resolve v p = (case p of Pending \<Rightarrow> Fulfilled v | Fulfilled u \<Rightarrow> p | Rejected e \<Rightarrow> p)"

definition reject :: "'e \<Rightarrow> ('v, 'e) promise_state \<Rightarrow> ('v, 'e) promise_state" where
  "reject e p = (case p of Pending \<Rightarrow> Rejected e | Fulfilled u \<Rightarrow> p | Rejected d \<Rightarrow> p)"

text \<open>A call of one of the two functions, as a timer callback makes it, and a sequence
  of such calls on one promise.\<close>

datatype ('v, 'e) settle_call = Resolve 'v | Reject 'e

fun perform :: "('v, 'e) settle_call \<Rightarrow> ('v, 'e) promise_state \<Rightarrow> ('v, 'e) promise_state" where
  "perform (Resolve v) p = resolve v p"
| "perform (Reject e) p = reject e p"

fun settle_calls ::
  "('v, 'e) settle_call list \<Rightarrow> ('v, 'e) promise_state \<Rightarrow> ('v, 'e) promise_state" where
  "settle_calls [] p = p"
| "settle_calls (c # cs) p = settle_calls cs (perform c p)"







subsection \<open>Console, timers and handlers\<close>

datatype console_entry = Log "js_value list" | Err "js_value list"

type_synonym console = "console_entry list"

text \<open>
  Every promise of the scripts is created by an executor that only calls
  \<open>setTimeout(callback, delay)\<close>: the promise is returned pending, together with the
  timers its executor registered, each with the call its callback will make.
  \<open>run_timers\<close> fires the timers of one promise in order of delay (timers of equal delay
  in the order of registration).
\<close>

record timed_promise =
  state :: js_promise
  timers :: "(nat \<times> (js_value, js_value) settle_call) list"

definition run_timers :: "timed_promise \<Rightarrow> js_promise" where
  "run_timers p = settle_calls (map snd (sort_key fst (timers p))) (state p)"

text \<open>
  \<open>p.then(f)\<close> and \<open>p.catch(g)\<close>, by the state that \<open>p\<close> reaches: the handler runs on the
  matching outcome and its return value fulfils the derived promise; the other outcome
  passes to the derived promise as it is. A handler takes the value and the console and
  returns its return value and the console (the handlers of the scripts log and return;
  none of them throws or returns a promise).
\<close>

type_synonym handler = "js_value \<Rightarrow> console \<Rightarrow> js_value \<times> console"

definition then' :: "handler \<Rightarrow> js_promise \<times> console \<Rightarrow> js_promise \<times> console" where
  "then' on_fulfilled pc =
     (case fst pc of
        Fulfilled v \<Rightarrow> (let (r, c) = on_fulfilled v (snd pc) in (Fulfilled r, c))
      | Rejected e \<Rightarrow> (Rejected e, snd pc)
      | Pending \<Rightarrow> (Pending, snd pc))"

definition catch' :: "handler \<Rightarrow> js_promise \<times> console \<Rightarrow> js_promise \<times> console" where
  "catch' on_rejected pc =
     (case fst pc of
        Fulfilled v \<Rightarrow> (Fulfilled v, snd pc)
      | Rejected e \<Rightarrow> (let (r, c) = on_rejected e (snd pc) in (Fulfilled r, c))
      | Pending \<Rightarrow> (Pending, snd pc))"

subsection \<open>\<open>script.js\<close>\<close>

text \<open>
  \<^verbatim>\<open>
  function fetchData(){
      return new Promise((resolve, reject) => {
          setTimeout(() => {
              let success = true;
              if (success) {
                  resolve("<check mark> Data fetched successfully");
              } else{
                  reject("<no entry> Error fetching data");
              }
          }, 3000);
      });
  }
  \<close>
  The two literals start with the emoji U+2705 and U+26D4, written here as their bytes.
  \<open>fetchData_timeout\<close> is the timer callback, with the executor's two parameters as
  its parameters.
\<close>

definition data_fetched :: string where
  "data_fetched = [CHR 0xE2, CHR 0x9C, CHR 0x85] @ '' Data fetched successfully''"

definition error_fetching :: string where
  "error_fetching = [CHR 0xE2, CHR 0x9B, CHR 0x94] @ '' Error fetching data''"

definition fetchData_timeout :: "(js_value \<Rightarrow> 'r) \<Rightarrow> (js_value \<Rightarrow> 'r) \<Rightarrow> 'r" where
  "fetchData_timeout resolve_fn reject_fn =
     (let success = True
      in if success then resolve_fn (JStr data_fetched) else reject_fn (JStr error_fetching))"

definition fetchData :: timed_promise where
  "fetchData = \<lparr>state = Pending, timers = [(3000, fetchData_timeout Resolve Reject)]\<rparr>"

text \<open>
  \<^verbatim>\<open>
  fetchData()
      .then((data) => { console.log(data); return `Tech-Code_`; })
      .then((value) => { console.log(value); })
      .catch((error) => console.error(error))
  \<close>
  \<open>promise_chain\<close> is the chain of the three handlers attached to a promise;
  \<open>script\<close> attaches it to the promise that \<open>fetchData()\<close> returns.
\<close>

definition on_data :: handler where
  "on_data data c = (JStr ''Tech-Code_'', c @ [Log [data]])"

definition on_value :: handler where
  "on_value value c = (JUndefined, c @ [Log [value]])"

definition on_error :: handler where
  "on_error error c = (JUndefined, c @ [Err [error]])"

definition promise_chain :: "js_promise \<times> console \<Rightarrow> js_promise \<times> console" where
  "promise_chain pc = catch' on_error (then' on_value (then' on_data pc))"

definition script :: "console \<Rightarrow> js_promise \<times> console" where
  "script c = promise_chain (run_timers fetchData, c)"

subsection \<open>Several promises at once\<close>

text \<open>
  A batch is a list of member promises and an aggregate that reacts to their settlements.
  An event is a timer callback calling \<open>resolve\<close> or \<open>reject\<close> of the member with the
  given index. The call settles the member if it is pending, and only then the aggregate's
  reaction to that member runs. \<open>timer_events\<close> lists the callbacks of all members'
  timers in firing order: by delay, timers of equal delay in the order of registration.
\<close>

record 'x world =
  members :: "js_promise list"
  aggregate :: 'x

type_synonym event = "nat \<times> (js_value, js_value) settle_call"

definition settle_member ::
  "(nat \<Rightarrow> js_promise \<Rightarrow> 'x \<Rightarrow> 'x) \<Rightarrow> event \<Rightarrow> 'x world \<Rightarrow> 'x world" where
  "settle_member react ev w =
     (if fst ev < length (members w)
      then (let old = members w ! fst ev;
                new = perform (snd ev) old
            in \<lparr>members = (members w)[fst ev := new],
                aggregate = (if old = Pending then react (fst ev) new (aggregate w)
                             else aggregate w)\<rparr>)
      else w)"

fun event_loop ::
  "(nat \<Rightarrow> js_promise \<Rightarrow> 'x \<Rightarrow> 'x) \<Rightarrow> event list \<Rightarrow> 'x world \<Rightarrow> 'x world" where
  "event_loop react [] w = w"
| "event_loop react (ev # evs) w = event_loop react evs (settle_member react ev w)"

definition timer_events :: "timed_promise list \<Rightarrow> event list" where
  "timer_events ps =
     map snd (sort_key fst
       (concat (map (\<lambda>(i, p). map (\<lambda>(d, c). (d, (i, c))) (timers p)) (enumerate 0 ps))))"

text \<open>
  \<open>Promise.all\<close>, in the readme's words: it "returns a new promise that resolves when all
  of the input promises are resolved. If any of the promises are rejected, the returned
  promise will also be rejected immediately." It keeps one slot per member (initially
  \<open>undefined\<close>) and a count of the members still to be fulfilled. A fulfilment fills the
  member's slot and, when the count reaches zero, resolves the returned promise with the
  array of slots; a rejection rejects the returned promise with the member's reason.
  The members are pending when the batch is formed, as in every call of the sources.
\<close>

record all_state =
  all_values :: "js_value list"
  remaining :: int
  all_promise :: "(js_value list, js_value) promise_state"

definition all_react :: "nat \<Rightarrow> js_promise \<Rightarrow> all_state \<Rightarrow> all_state" where
  "all_react i new a =
     (case new of
        Fulfilled v \<Rightarrow>
          (let vs = (all_values a)[i := v];
               r = remaining a - 1
           in \<lparr>all_values = vs, remaining = r,
               all_promise = (if r = 0 then resolve vs (all_promise a) else all_promise a)\<rparr>)
      | Rejected e \<Rightarrow> a\<lparr>all_promise := reject e (all_promise a)\<rparr>
      | Pending \<Rightarrow> a)"

definition promise_all :: "js_promise list \<Rightarrow> all_state world" where
  "promise_all ms =
     \<lparr>members = ms,
      aggregate = \<lparr>all_values = replicate (length ms) JUndefined,
                   remaining = int (length ms),
                   all_promise = (if length ms = 0 then Fulfilled [] else Pending)\<rparr>\<rparr>"

text \<open>
  \<open>Promise.race\<close>, in the readme's words: it "returns a promise that resolves or rejects
  as soon as one of the input promises resolves or rejects. The other promises are
  ignored." Every member's settlement is passed to \<open>resolve\<close> or \<open>reject\<close> of the
  returned promise (\<open>race_react\<close>): that of a member already settled when the race is
  formed at once, in the order of the members, and that of a pending member when it
  settles.

  A race is run with the pending timers in the state, so that what a batch does to its
  members' timers is part of the run: the state holds the promises, the queue of timer
  callbacks in firing order, and the batch. \<open>fire_timer\<close> takes the first callback off
  the queue and lets it call \<open>resolve\<close> or \<open>reject\<close> of its promise; if that settles the
  promise, the reaction of the batch runs on the whole state. The reaction of
  \<open>Promise.race\<close> changes the returned promise and nothing else.
\<close>

definition race_react :: "js_promise \<Rightarrow> js_promise \<Rightarrow> js_promise" where
  "race_react new p =
     (case new of
        Fulfilled v \<Rightarrow> resolve v p
      | Rejected e \<Rightarrow> reject e p
      | Pending \<Rightarrow> p)"

record 'x run_state =
  promise_store :: "js_promise list"
  timer_queue :: "event list"
  batch :: 'x

type_synonym 'x reaction = "nat \<Rightarrow> js_promise \<Rightarrow> 'x run_state \<Rightarrow> 'x run_state"

definition fire_timer :: "'x reaction \<Rightarrow> 'x run_state \<Rightarrow> 'x run_state" where
  "fire_timer react s =
     (case timer_queue s of
        [] \<Rightarrow> s
      | ev # evs \<Rightarrow>
          (let s1 = s\<lparr>timer_queue := evs\<rparr>
           in if fst ev < length (promise_store s1)
              then (let old = promise_store s1 ! fst ev;
                        new = perform (snd ev) old;
                        s2 = s1\<lparr>promise_store := (promise_store s1)[fst ev := new]\<rparr>
                    in if old = Pending then react (fst ev) new s2 else s2)
              else s1))"

fun fire_timers :: "'x reaction \<Rightarrow> nat \<Rightarrow> 'x run_state \<Rightarrow> 'x run_state" where
  "fire_timers react 0 s = s"
| "fire_timers react (Suc n) s = fire_timers react n (fire_timer react s)"

definition race_reaction :: "js_promise reaction" where
  "race_reaction i new s = s\<lparr>batch := race_react new (batch s)\<rparr>"

definition promise_race :: "js_promise list \<Rightarrow> event list \<Rightarrow> js_promise run_state" where
  "promise_race ms q =
     \<lparr>promise_store = ms, timer_queue = q,
      batch = foldl (\<lambda>p m. race_react m p) Pending ms\<rparr>"

text \<open>The same promises and timers with no batch formed over them.\<close>

definition no_reaction :: "unit reaction" where
  "no_reaction i new s = s"

definition unbatched :: "js_promise list \<Rightarrow> event list \<Rightarrow> unit run_state" where
  "unbatched ms q = \<lparr>promise_store = ms, timer_queue = q, batch = ()\<rparr>"

text \<open>
  Modelled from the spec: the race of the specification, which on the first settlement
  sends a cancellation request to every other member. The repository has no such
  operation; a member that is asked to stop is taken to drop its pending timers. The
  definition serves only to set \<open>Promise.race\<close> against it.
\<close>

definition cancelling_race_reaction :: "js_promise reaction" where
  "cancelling_race_reaction i new s =
     (if batch s = Pending
      then s\<lparr>batch := race_react new (batch s),
             timer_queue := filter (\<lambda>ev. fst ev = i) (timer_queue s)\<rparr>
      else s)"

subsection \<open>\<open>aync-await.js\<close>\<close>

text \<open>
  \<^verbatim>\<open>
  function fetchPostData(){
      return new Promise((resolve) => {
          setTimeout(() => { resolve("Post Data fetched") }, 2000);
      })
  }
  function fetchCommentData(){
      return new Promise((resolve) => {
          setTimeout(() => { resolve("Comment data fetched."); }, 3000);
      });
  }
  async function getBlogData(){
      try{
          console.log("Fetching blog data");
          const [postData, commentData] = await Promise.all([
              fetchPostData(),
              fetchCommentData(),
          ]);
          console.log(postData);
          console.log(commentData);
          console.log("fetch complete");
      } catch (error){
          console.error("Error fetching blog data", error);
      }
  }
  \<close>
  \<open>getBlogData_resume\<close> is the function from the \<open>await\<close> on: it continues with the
  array when the awaited promise is fulfilled, enters the \<open>catch\<close> block with the reason
  when it is rejected, and does not continue while it is pending. \<open>element\<close> is the
  destructuring of an array (a missing element is \<open>undefined\<close>).
\<close>

definition fetchPostData :: timed_promise where
  "fetchPostData = \<lparr>state = Pending, timers = [(2000, Resolve (JStr ''Post Data fetched''))]\<rparr>"

definition fetchCommentData :: timed_promise where
  "fetchCommentData =
     \<lparr>state = Pending, timers = [(3000, Resolve (JStr ''Comment data fetched.''))]\<rparr>"

definition element :: "js_value list \<Rightarrow> nat \<Rightarrow> js_value" where
  "element vs i = (if i < length vs then vs ! i else JUndefined)"

definition getBlogData_resume ::
  "(js_value list, js_value) promise_state \<Rightarrow> console \<Rightarrow> console" where
  "getBlogData_resume awaited c =
     (case awaited of
        Fulfilled vs \<Rightarrow>
          (let postData = element vs 0;
               commentData = element vs 1
           in c @ [Log [postData], Log [commentData], Log [JStr ''fetch complete'']])
      | Rejected error \<Rightarrow> c @ [Err [JStr ''Error fetching blog data'', error]]
      | Pending \<Rightarrow> c)"

definition getBlogData :: "console \<Rightarrow> console" where
  "getBlogData c =
     (let c1 = c @ [Log [JStr ''Fetching blog data'']];
          ps = [fetchPostData, fetchCommentData];
          w = event_loop all_react (timer_events ps) (promise_all (map state ps))
      in getBlogData_resume (all_promise (aggregate w)) c1)"

subsection \<open>Auxiliary notions for the proofs\<close>

definition is_rejected :: "('v, 'e) promise_state \<Rightarrow> bool" where
  "is_rejected p = (case p of Rejected e \<Rightarrow> True | Fulfilled v \<Rightarrow> False | Pending \<Rightarrow> False)"

definition unfulfilled :: "('v, 'e) promise_state \<Rightarrow> nat" where
  "unfulfilled p = (case p of Fulfilled v \<Rightarrow> 0 | Rejected e \<Rightarrow> 1 | Pending \<Rightarrow> 1)"

definition value_of :: "js_promise \<Rightarrow> js_value" where
  "value_of p = (case p of Fulfilled v \<Rightarrow> v | Rejected e \<Rightarrow> JUndefined | Pending \<Rightarrow> JUndefined)"

text \<open>
  What holds of a \<open>Promise.all\<close> batch at every moment: the slots are the members' values,
  the count is the number of members not yet fulfilled, the returned promise is fulfilled
  only with the slots and only at count zero, and while no member is rejected it is
  pending exactly as long as the count is positive.
\<close>

definition all_inv :: "all_state world \<Rightarrow> bool" where
  "all_inv w \<longleftrightarrow>
     length (all_values (aggregate w)) = length (members w)
   \<and> remaining (aggregate w) = int (sum_list (map unfulfilled (members w)))
   \<and> all_values (aggregate w) = map value_of (members w)
   \<and> ((\<forall>m \<in> set (members w). \<not> is_rejected m) \<longrightarrow>
        all_promise (aggregate w)
          = (if remaining (aggregate w) = 0 then Fulfilled (all_values (aggregate w)) else Pending))
   \<and> (\<forall>x. all_promise (aggregate w) = Fulfilled x \<longrightarrow>
        remaining (aggregate w) = 0 \<and> x = all_values (aggregate w))"

section \<open>Properties of numbers and of \<open>BankAccount\<close>\<close>

lemma ulp_search_lower: "e \<le> ulp_search q e n"
proof (induction n arbitrary: e)
  case 0
  then show ?case by simp
next
  case (Suc n)
  have "e + 1 \<le> ulp_search q (e + 1) n" by (rule Suc.IH)
  then show ?case by simp
qed






























section \<open>Properties of \<open>memoize\<close>\<close>

lemma decimal_digits: "decimal 1 = ''1''" "decimal 4 = ''4''" "decimal 5 = ''5''"
  by code_simp+

text \<open>
  C2. Two lookups with the same key (two calls of the wrapper whose arguments have the
  same property key) invoke \<open>fn\<close> at most once, and both observe the same cached value.
  The first call returns what the cache holds under the key or, on a miss, the result of
  \<open>fn\<close>, which it stores under the key; the second call is a cache hit: it takes the
  branch that logs "Fetching from cache", leaves the cache and the invocations as they
  are, and returns the entry that the cache holds under the key, which is the value that
  the first call returned.
\<close>

theorem memoize_at_most_once:
  assumes "key_of x = key_of y"
  shows "(let (r1, st1) = memoized fn key_of x st;
              (r2, st2) = memoized fn key_of y st1
          in r2 = r1
           \<and> r2 = get_property (cache st1) (key_of y)
           \<and> r1 = (if has_property (cache st) (key_of x)
                   then get_property (cache st) (key_of x) else Val (fn x))
           \<and> cache st1 = (if has_property (cache st) (key_of x)
                          then cache st else (cache st)(key_of x \<mapsto> fn x))
           \<and> calls st1 = (if has_property (cache st) (key_of x)
                          then calls st else calls st @ [x])
           \<and> calls st2 = calls st1
           \<and> length (calls st2) \<le> length (calls st) + 1
           \<and> length (filter (\<lambda>l. l = ''Calculating result'') (logged st2))
               \<le> length (filter (\<lambda>l. l = ''Calculating result'') (logged st)) + 1
           \<and> cache st2 = cache st1
           \<and> logged st2 = logged st1 @ [''Fetching from cache''])"
  using assms
  by (simp add: memoized_def has_property_def get_property_def Let_def split: option.splits)

text \<open>The number \<open>1\<close> and the string \<open>"1"\<close> are the same key: the first call computes and
  stores the value, the second call returns that entry, and \<open>fn\<close> has run once.\<close>

theorem memoize_at_most_once_witness:
  "fst (memoized id to_property_key (JStr ''1'')
         (snd (memoized id to_property_key (JNum 1) memoize)))
     = fst (memoized id to_property_key (JNum 1) memoize)
   \<and> fst (memoized id to_property_key (JNum 1) memoize) = Val (JNum 1)
   \<and> cache (snd (memoized id to_property_key (JNum 1) memoize)) ''1'' = Some (JNum 1)
   \<and> calls (snd (memoized id to_property_key (JStr ''1'')
         (snd (memoized id to_property_key (JNum 1) memoize))))
     = [JNum 1]"
proof -
  have h: "to_property_key (JNum 1) = to_property_key (JStr ''1'')"
    by (simp add: decimal_digits)
  have miss: "\<not> has_property (cache (memoize :: (js_value, js_value) memo_state))
      (to_property_key (JNum 1))"
    by (simp add: memoize_def has_property_def object_prototype_keys_def decimal_digits)
  have "calls (memoize :: (js_value, js_value) memo_state) = []"
    by (simp add: memoize_def)
  with memoize_at_most_once [of to_property_key "JNum 1" "JStr ''1''" id memoize, OF h] miss
  show ?thesis
    by (simp add: split_beta decimal_digits)
qed

lemma memoized_keeps_entry:
  "cache st k = Some v \<Longrightarrow> cache (snd (memoized fn key_of x st)) k = Some v"
  by (auto simp add: memoized_def has_property_def Let_def split: option.splits)

lemma memo_calls_keeps_entry:
  "cache st k = Some v \<Longrightarrow> cache (snd (memo_calls fn key_of xs st)) k = Some v"
proof (induction xs arbitrary: st)
  case Nil
  then show ?case by simp
next
  case (Cons x xs)
  from Cons.prems have "cache (snd (memoized fn key_of x st)) k = Some v"
    by (rule memoized_keeps_entry)
  from Cons.IH [OF this] show ?case
    by (simp add: split_beta Let_def)
qed

text \<open>
  C7. A key whose cached entry is a rejected promise stays failed: a lookup returns the
  stored rejected entry without invoking \<open>fn\<close>, and that remains so after any further
  calls of the wrapper (the wrapper has no option to retry and nothing removes or
  replaces an entry).
\<close>

theorem memoize_rejected_entry_kept:
  assumes "cache st (key_of x) = Some (Rejected r)"
  shows "memoized fn key_of x st
           = (Val (Rejected r), st\<lparr>logged := logged st @ [''Fetching from cache'']\<rparr>)
       \<and> calls (snd (memoized fn key_of x st)) = calls st
       \<and> cache (snd (memo_calls fn key_of xs st)) (key_of x) = Some (Rejected r)
       \<and> fst (memoized fn key_of x (snd (memo_calls fn key_of xs st))) = Val (Rejected r)
       \<and> calls (snd (memoized fn key_of x (snd (memo_calls fn key_of xs st))))
           = calls (snd (memo_calls fn key_of xs st))"
proof -
  have hit: "\<And>s. cache s (key_of x) = Some (Rejected r) \<Longrightarrow>
      memoized fn key_of x s
        = (Val (Rejected r), s\<lparr>logged := logged s @ [''Fetching from cache'']\<rparr>)"
    by (simp add: memoized_def has_property_def get_property_def)
  have later: "cache (snd (memo_calls fn key_of xs st)) (key_of x) = Some (Rejected r)"
    using assms by (rule memo_calls_keeps_entry)
  show ?thesis
    using hit [OF assms] hit [OF later] later by simp
qed

text \<open>A producer that rejects with its argument: the second lookup of \<open>"boom"\<close> returns the
  stored rejection, and the producer has run once.\<close>

theorem memoize_rejected_entry_kept_witness:
  "fst (memoized Rejected to_property_key (JStr ''boom'')
         (snd (memoized Rejected to_property_key (JStr ''boom'') (memoize :: (js_value, (js_value, js_value) promise_state) memo_state))))
     = Val (Rejected (JStr ''boom''))
   \<and> calls (snd (memoized Rejected to_property_key (JStr ''boom'')
         (snd (memoized Rejected to_property_key (JStr ''boom'') (memoize :: (js_value, (js_value, js_value) promise_state) memo_state)))))
     = [JStr ''boom'']"
proof -
  let ?st = "snd (memoized Rejected to_property_key (JStr ''boom'')
                (memoize :: (js_value, (js_value, js_value) promise_state) memo_state))"
  have h: "cache ?st (to_property_key (JStr ''boom'')) = Some (Rejected (JStr ''boom''))"
    by (simp add: memoized_def memoize_def has_property_def object_prototype_keys_def Let_def)
  have c: "calls ?st = [JStr ''boom'']"
    by (simp add: memoized_def memoize_def has_property_def object_prototype_keys_def Let_def)
  from memoize_rejected_entry_kept
    [where key_of = to_property_key and x = "JStr ''boom''" and fn = Rejected and xs = "[]", OF h] c
  show ?thesis
    by simp
qed

lemma memo_calls_extensional:
  assumes "inj_on key_of (set xs)"
    and "\<forall>x \<in> set xs. key_of x \<notin> set object_prototype_keys"
    and "\<forall>x \<in> set xs. \<forall>v. cache st (key_of x) = Some v \<longrightarrow> v = fn x"
  shows "fst (memo_calls fn key_of xs st) = map (\<lambda>x. Val (fn x)) xs"
  using assms
proof (induction xs arbitrary: st)
  case Nil
  then show ?case by simp
next
  case (Cons x xs)
  obtain r st1 where step: "memoized fn key_of x st = (r, st1)"
    by (cases "memoized fn key_of x st")
  have r: "r = Val (fn x)"
    using step Cons.prems(2,3)
    by (auto simp add: memoized_def has_property_def get_property_def Let_def
        split: option.splits if_splits)
  have inv: "\<forall>y \<in> set xs. \<forall>v. cache st1 (key_of y) = Some v \<longrightarrow> v = fn y"
  proof (intro ballI allI impI)
    fix y v
    assume y: "y \<in> set xs" and v: "cache st1 (key_of y) = Some v"
    show "v = fn y"
    proof (cases "key_of y = key_of x")
      case True
      have "y \<in> set (x # xs)" and "x \<in> set (x # xs)"
        using y by simp_all
      with True have "y = x"
        by (rule inj_onD [OF Cons.prems(1)])
      moreover have "cache st1 (key_of x) = Some v"
        using v True by simp
      then have "v = fn x"
        using step Cons.prems(3)
        by (auto simp add: memoized_def has_property_def Let_def split: option.splits if_splits)
      ultimately show ?thesis by simp
    next
      case False
      then have "cache st1 (key_of y) = cache st (key_of y)"
        using step
        by (auto simp add: memoized_def has_property_def Let_def split: option.splits if_splits)
      with v y Cons.prems(3) show ?thesis by simp
    qed
  qed
  have "fst (memo_calls fn key_of xs st1) = map (\<lambda>x. Val (fn x)) xs"
    using Cons.prems(1,2) inv by (intro Cons.IH) (auto simp add: inj_on_def)
  then show ?case
    using step r by (simp add: split_beta)
qed

text \<open>
  As the claim is written, the wrapper would return \<open>fn(x)\<close> for every argument. The
  number \<open>1\<close> and the string \<open>"1"\<close> are different arguments with one property key, so
  they share one entry of the cache: after a call with \<open>1\<close>, the call with \<open>"1"\<close> is a
  cache hit and returns the value computed for \<open>1\<close>; for the identity function that is
  the number, not the string.
\<close>

theorem memoize_key_collision_counterexample:
  "fst (memoized id to_property_key (JStr ''1'')
         (snd (memoized id to_property_key (JNum 1) memoize)))
     = Val (JNum 1)
   \<and> id (JStr ''1'') \<noteq> JNum 1"
  by (simp add: memoized_def memoize_def has_property_def get_property_def
      object_prototype_keys_def decimal_digits Let_def)

text \<open>
  A second way in which an argument reaches the cache branch without having been stored:
  \<open>"toString"\<close> is a property that the empty cache inherits, so the first call with it
  returns the inherited member and does not call \<open>fn\<close>.
\<close>

lemma memoize_inherited_key:
  "fst (memoized length id ''toString'' memoize) = ProtoMember ''toString''"
  by (simp add: memoized_def memoize_def has_property_def get_property_def object_prototype_keys_def)

text \<open>
  C9 (amended). For every function \<open>fn\<close> and every sequence of calls whose arguments have
  property keys that are not inherited by the cache object and that differ for different
  arguments, the wrapper returned by \<open>memoize(fn)\<close> returns \<open>fn(x)\<close> on the first
  (cache-miss) call and on every later (cache-hit) call with argument \<open>x\<close>.
\<close>

theorem memoize_extensional_on_distinct_keys:
  assumes "inj_on key_of (set xs)"
    and "\<forall>x \<in> set xs. key_of x \<notin> set object_prototype_keys"
  shows "fst (memo_calls fn key_of xs memoize) = map (\<lambda>x. Val (fn x)) xs"
  using assms by (intro memo_calls_extensional) (simp_all add: memoize_def)

text \<open>The readme's \<open>square(4)\<close>, called twice, and \<open>square(5)\<close>; the property key of a
  number is its decimal form.\<close>

theorem memoize_extensional_on_distinct_keys_witness:
  "fst (memo_calls square decimal [4, 4, 5] memoize) = [Val 16, Val 16, Val 25]"
proof -
  have h1: "inj_on decimal (set [4, 4, 5 :: int])"
    by (simp add: decimal_digits)
  have h2: "\<forall>x \<in> set [4, 4, 5 :: int]. decimal x \<notin> set object_prototype_keys"
    by (simp add: decimal_digits object_prototype_keys_def)
  from memoize_extensional_on_distinct_keys [OF h1 h2, of square] show ?thesis
    by (simp add: square_def)
qed

section \<open>Properties of a single promise and of \<open>script.js\<close>\<close>

lemma perform_settled: "p \<noteq> Pending \<Longrightarrow> perform d p = p"
  by (cases d; cases p) (simp_all add: resolve_def reject_def)

lemma perform_pending: "perform d Pending \<noteq> Pending"
  by (cases d) (simp_all add: resolve_def reject_def)






lemma run_timers_fetchData: "run_timers fetchData = Fulfilled (JStr data_fetched)"
  by (simp add: run_timers_def fetchData_def fetchData_timeout_def resolve_def)

text \<open>
  C8. The promise that \<open>fetchData\<close> returns is fulfilled with the string
  "<check mark> Data fetched successfully": the timer callback calls \<open>resolve\<close> with it
  whatever \<open>reject\<close> is, since \<open>success\<close> is the constant \<open>true\<close>; the script logs the
  data and then "Tech-Code_", and the handler given to \<open>.catch\<close> does not run (any
  handler in its place leaves the result of the two \<open>.then\<close> as it is).
\<close>

theorem fetchData_always_fulfilled:
  "fetchData_timeout resolve_fn reject_fn = resolve_fn (JStr data_fetched)
   \<and> run_timers fetchData = Fulfilled (JStr data_fetched)
   \<and> script c = (Fulfilled JUndefined, c @ [Log [JStr data_fetched], Log [JStr ''Tech-Code_'']])
   \<and> catch' h (then' on_value (then' on_data (run_timers fetchData, c)))
       = then' on_value (then' on_data (run_timers fetchData, c))"
  by (simp add: run_timers_fetchData fetchData_timeout_def script_def promise_chain_def
      then'_def catch'_def on_data_def on_value_def on_error_def)

theorem fetchData_always_fulfilled_witness:
  "script [] = (Fulfilled JUndefined, [Log [JStr data_fetched], Log [JStr ''Tech-Code_'']])
   \<and> fetchData_timeout Resolve Reject
       = (Resolve (JStr data_fetched) :: (js_value, js_value) settle_call)"
  using fetchData_always_fulfilled [of "Resolve :: js_value \<Rightarrow> (js_value, js_value) settle_call"
      Reject "[]" on_error]
  by simp

text \<open>
  C6. A rejection passes through the chain unchanged: each \<open>.then\<close> hands the reason on
  as it is without running its handler, the handler given to \<open>.catch\<close> receives this
  very reason (the script's handler prints it with \<open>console.error\<close>) and only its return
  value recovers the chain; an \<open>await\<close> inside \<open>try\<close> hands the reason of the awaited
  promise to the \<open>catch\<close> block in the same way.
\<close>

theorem rejection_reaches_catch_unchanged:
  "then' h (Rejected r, c) = (Rejected r, c)
   \<and> then' on_value (then' on_data (Rejected r, c)) = (Rejected r, c)
   \<and> promise_chain (Rejected r, c) = (Fulfilled JUndefined, c @ [Err [r]])
   \<and> catch' h (Rejected r, c) = (Fulfilled (fst (h r c)), snd (h r c))
   \<and> getBlogData_resume (Rejected r) c = c @ [Err [JStr ''Error fetching blog data'', r]]"
  by (simp add: promise_chain_def then'_def catch'_def on_error_def getBlogData_resume_def
      split_beta)

theorem rejection_reaches_catch_unchanged_witness:
  "promise_chain (Rejected (JStr error_fetching), [])
     = (Fulfilled JUndefined, [Err [JStr error_fetching]])
   \<and> then' on_value (then' on_data (Rejected (JStr error_fetching), []))
     = (Rejected (JStr error_fetching), [])"
  using rejection_reaches_catch_unchanged [of on_error "JStr error_fetching" "[]"]
  by simp

section \<open>Properties of \<open>Promise.all\<close> and \<open>Promise.race\<close>\<close>

lemma event_loop_append:
  "event_loop react (xs @ ys) w = event_loop react ys (event_loop react xs w)"
  by (induction xs arbitrary: w) simp_all

lemma members_settle_member:
  "members (settle_member react ev w)
     = (if fst ev < length (members w)
        then (members w)[fst ev := perform (snd ev) (members w ! fst ev)]
        else members w)"
  by (simp add: settle_member_def Let_def)

lemma members_event_loop_react:
  "members w = members w' \<Longrightarrow>
   members (event_loop react evs w) = members (event_loop react' evs w')"
proof (induction evs arbitrary: w w')
  case Nil
  then show ?case by simp
next
  case (Cons ev evs)
  have "members (settle_member react ev w) = members (settle_member react' ev w')"
    using Cons.prems by (simp add: members_settle_member)
  then show ?case
    by (simp add: Cons.IH)
qed

lemma length_members_event_loop:
  "length (members (event_loop react evs w)) = length (members w)"
  by (induction evs arbitrary: w) (simp_all add: members_settle_member)

lemma member_untouched:
  "\<forall>ev \<in> set evs. fst ev \<noteq> k \<Longrightarrow> members (event_loop react evs w) ! k = members w ! k"
  by (induction evs arbitrary: w) (simp_all add: members_settle_member)

lemma no_rejection_settle_member:
  assumes "\<forall>m \<in> set (members w). \<not> is_rejected m" and "snd ev = Resolve v"
  shows "\<forall>m \<in> set (members (settle_member react ev w)). \<not> is_rejected m"
proof
  fix m
  assume "m \<in> set (members (settle_member react ev w))"
  then have "m \<in> set (members w) \<or> m = perform (snd ev) (members w ! fst ev) \<and> fst ev < length (members w)"
    by (auto simp add: members_settle_member split: if_splits dest: set_update_subset_insert [THEN subsetD])
  then show "\<not> is_rejected m"
  proof
    assume "m \<in> set (members w)"
    with assms(1) show ?thesis by simp
  next
    assume m: "m = perform (snd ev) (members w ! fst ev) \<and> fst ev < length (members w)"
    then have "\<not> is_rejected (members w ! fst ev)"
      using assms(1) by simp
    with m assms(2) show ?thesis
      by (cases "members w ! fst ev") (simp_all add: resolve_def is_rejected_def)
  qed
qed

lemma no_rejection_event_loop:
  "\<forall>m \<in> set (members w). \<not> is_rejected m \<Longrightarrow> \<forall>ev \<in> set evs. \<exists>v. snd ev = Resolve v \<Longrightarrow>
   \<forall>m \<in> set (members (event_loop react evs w)). \<not> is_rejected m"
proof (induction evs arbitrary: w)
  case Nil
  then show ?case by simp
next
  case (Cons ev evs)
  from Cons.prems(2) obtain v where "snd ev = Resolve v" by auto
  with Cons.prems(1) have "\<forall>m \<in> set (members (settle_member react ev w)). \<not> is_rejected m"
    by (rule no_rejection_settle_member)
  moreover have "\<forall>ev \<in> set evs. \<exists>v. snd ev = Resolve v"
    using Cons.prems(2) by simp
  ultimately show ?case
    using Cons.IH by simp
qed

lemma all_inv_promise_all:
  assumes "\<forall>m \<in> set ms. m = Pending"
  shows "all_inv (promise_all ms)"
proof -
  have ms: "ms = replicate (length ms) Pending"
    using assms by (simp add: replicate_length_same)
  have "map value_of ms = replicate (length ms) JUndefined"
    by (subst ms) (simp add: value_of_def)
  moreover have "sum_list (map unfulfilled ms) = length ms"
    by (subst ms) (simp add: unfulfilled_def sum_list_replicate)
  moreover have "\<forall>m \<in> set ms. \<not> is_rejected m"
    using assms by (auto simp add: is_rejected_def)
  ultimately show ?thesis
    by (simp add: all_inv_def promise_all_def)
qed

lemma unfulfilled_pending_member:
  assumes "i < length ms" and "ms ! i = Pending"
  shows "1 \<le> sum_list (map unfulfilled ms)"
proof -
  have "map unfulfilled ms ! i \<le> sum_list (map unfulfilled ms)"
    using assms(1) by (intro elem_le_sum_list) simp
  then have "unfulfilled (ms ! i) \<le> sum_list (map unfulfilled ms)"
    using assms(1) by simp
  then show ?thesis
    using assms(2) by (simp add: unfulfilled_def)
qed

lemma sum_unfulfilled_update:
  assumes "i < length ms"
  shows "sum_list (map unfulfilled (ms[i := m]))
           = sum_list (map unfulfilled ms) + unfulfilled m - unfulfilled (ms ! i)"
  using assms by (simp add: map_update sum_list_update)

lemma all_inv_settle_member:
  assumes "all_inv w"
  shows "all_inv (settle_member all_react ev w)"
proof (cases "fst ev < length (members w)")
  case False
  then show ?thesis
    using assms by (simp add: settle_member_def)
next
  case in_range: True
  let ?i = "fst ev"
  let ?old = "members w ! ?i"
  show ?thesis
  proof (cases "?old = Pending")
    case False
    then have "perform (snd ev) ?old = ?old"
      by (rule perform_settled)
    then have "settle_member all_react ev w = w"
      using in_range False by (simp add: settle_member_def Let_def)
    then show ?thesis
      using assms by simp
  next
    case pending: True
    have count: "1 \<le> sum_list (map unfulfilled (members w))"
      using in_range pending by (rule unfulfilled_pending_member)
    have rem: "remaining (aggregate w) = int (sum_list (map unfulfilled (members w)))"
      and vals: "all_values (aggregate w) = map value_of (members w)"
      and nofail: "(\<forall>m \<in> set (members w). \<not> is_rejected m) \<longrightarrow>
        all_promise (aggregate w)
          = (if remaining (aggregate w) = 0 then Fulfilled (all_values (aggregate w)) else Pending)"
      and full: "\<forall>x. all_promise (aggregate w) = Fulfilled x \<longrightarrow>
        remaining (aggregate w) = 0 \<and> x = all_values (aggregate w)"
      using assms unfolding all_inv_def by blast+
    have not_full: "all_promise (aggregate w) \<noteq> Fulfilled x" for x
    proof
      assume "all_promise (aggregate w) = Fulfilled x"
      with full have "remaining (aggregate w) = 0" by blast
      with rem count show False by linarith
    qed
    show ?thesis
    proof (cases "snd ev")
      case (Resolve v)
      have new: "perform (snd ev) ?old = Fulfilled v"
        using Resolve pending by (simp add: resolve_def)
      have step: "settle_member all_react ev w
          = \<lparr>members = (members w)[?i := Fulfilled v],
             aggregate = all_react ?i (Fulfilled v) (aggregate w)\<rparr>"
        using in_range pending new by (simp add: settle_member_def Let_def)
      have sum': "sum_list (map unfulfilled ((members w)[?i := Fulfilled v]))
          = sum_list (map unfulfilled (members w)) - 1"
        using in_range pending by (simp add: sum_unfulfilled_update unfulfilled_def)
      have vals': "(all_values (aggregate w))[?i := v] = map value_of ((members w)[?i := Fulfilled v])"
        by (simp add: vals map_update value_of_def)
      have nofail': "(\<forall>m \<in> set ((members w)[?i := Fulfilled v]). \<not> is_rejected m) \<longrightarrow>
          (\<forall>m \<in> set (members w). \<not> is_rejected m)"
      proof (intro impI ballI)
        fix m
        assume a: "\<forall>m \<in> set ((members w)[?i := Fulfilled v]). \<not> is_rejected m"
          and m: "m \<in> set (members w)"
        from m obtain j where j: "j < length (members w)" "members w ! j = m"
          by (auto simp add: in_set_conv_nth)
        show "\<not> is_rejected m"
        proof (cases "j = ?i")
          case True
          with j pending show ?thesis by (simp add: is_rejected_def)
        next
          case False
          then have "(members w)[?i := Fulfilled v] ! j = m"
            using j by simp
          moreover have "(members w)[?i := Fulfilled v] ! j \<in> set ((members w)[?i := Fulfilled v])"
            using j by (intro nth_mem) simp
          ultimately show ?thesis
            using a by auto
        qed
      qed
      show ?thesis
        unfolding step all_inv_def
        using rem vals' sum' nofail nofail' count not_full
        by (cases "all_promise (aggregate w)")
           (auto simp add: all_react_def Let_def resolve_def vals)
    next
      case (Reject e)
      have new: "perform (snd ev) ?old = Rejected e"
        using Reject pending by (simp add: reject_def)
      have step: "settle_member all_react ev w
          = \<lparr>members = (members w)[?i := Rejected e],
             aggregate = all_react ?i (Rejected e) (aggregate w)\<rparr>"
        using in_range pending new by (simp add: settle_member_def Let_def)
      have sum': "sum_list (map unfulfilled ((members w)[?i := Rejected e]))
          = sum_list (map unfulfilled (members w))"
        using in_range pending count by (simp add: sum_unfulfilled_update unfulfilled_def)
      have vals': "map value_of ((members w)[?i := Rejected e]) = map value_of (members w)"
        using pending in_range
        by (simp add: map_update value_of_def list_update_same_conv)
      have rejected: "Rejected e \<in> set ((members w)[?i := Rejected e])"
        using in_range by (simp add: set_update_memI)
      have "is_rejected (Rejected e :: js_promise)"
        by (simp add: is_rejected_def)
      with rejected have "\<not> (\<forall>m \<in> set ((members w)[?i := Rejected e]). \<not> is_rejected m)"
        by blast
      then show ?thesis
        unfolding step all_inv_def
        using rem vals vals' sum' count not_full
        by (cases "all_promise (aggregate w)")
           (auto simp add: all_react_def reject_def)
    qed
  qed
qed

lemma all_inv_event_loop: "all_inv w \<Longrightarrow> all_inv (event_loop all_react evs w)"
  by (induction evs arbitrary: w) (simp_all add: all_inv_settle_member)

lemma all_promise_settled_step:
  assumes "all_promise (aggregate w) \<noteq> Pending"
  shows "all_promise (aggregate (settle_member all_react ev w)) = all_promise (aggregate w)"
  using assms
  by (cases "all_promise (aggregate w)")
     (auto simp add: settle_member_def all_react_def Let_def resolve_def reject_def
        split: promise_state.splits)

lemma all_promise_settled_loop:
  "all_promise (aggregate w) \<noteq> Pending \<Longrightarrow>
   all_promise (aggregate (event_loop all_react evs w)) = all_promise (aggregate w)"
  by (induction evs arbitrary: w) (simp_all add: all_promise_settled_step)

lemma all_fulfilled_values:
  assumes "all_inv w" and "members w = map Fulfilled vs"
  shows "all_promise (aggregate w) = Fulfilled vs"
proof -
  have "map value_of (members w) = vs"
    by (simp add: assms(2) value_of_def comp_def)
  moreover have "sum_list (map unfulfilled (members w)) = 0"
    by (simp add: assms(2) unfulfilled_def comp_def)
  moreover have "\<forall>m \<in> set (members w). \<not> is_rejected m"
    by (auto simp add: assms(2) is_rejected_def)
  ultimately show ?thesis
    using assms(1) by (simp add: all_inv_def)
qed

lemma fulfilled_all_members:
  assumes "all_inv w" and "all_promise (aggregate w) = Fulfilled x"
  shows "members w = map Fulfilled x"
proof -
  have zero: "sum_list (map unfulfilled (members w)) = 0"
    and x: "x = map value_of (members w)"
    using assms unfolding all_inv_def by auto
  have "\<forall>m \<in> set (members w). m = Fulfilled (value_of m)"
  proof
    fix m
    assume "m \<in> set (members w)"
    with zero have "unfulfilled m = 0" by simp
    then show "m = Fulfilled (value_of m)"
      by (cases m) (simp_all add: unfulfilled_def value_of_def)
  qed
  then have "map Fulfilled (map value_of (members w)) = members w"
    by (simp add: map_idI)
  with x show ?thesis by simp
qed

text \<open>
  As the claim is written, the failed batch would end with an aggregate failure that
  refers to the member's reason. With two members of which the second rejects with the
  string "t2 failed" before the first resolves, the promise that \<open>Promise.all\<close> returned
  is rejected with that string itself, and the \<open>catch\<close> block of a function awaiting it
  (here that of \<open>getBlogData\<close>) receives the string.
\<close>

theorem promise_all_bare_reason_counterexample:
  "all_promise (aggregate (event_loop all_react
       [(1, Reject (JStr ''t2 failed'')), (0, Resolve (JStr ''t1 done''))]
       (promise_all [Pending, Pending])))
     = Rejected (JStr ''t2 failed'')
   \<and> getBlogData_resume (all_promise (aggregate (event_loop all_react
       [(1, Reject (JStr ''t2 failed'')), (0, Resolve (JStr ''t1 done''))]
       (promise_all [Pending, Pending])))) []
     = [Err [JStr ''Error fetching blog data'', JStr ''t2 failed'']]"
  by (simp add: promise_all_def settle_member_def all_react_def resolve_def reject_def
      getBlogData_resume_def Let_def)

text \<open>
  C3 (amended). A \<open>Promise.all\<close> batch fails fast: when a member rejects while it and
  possibly others are still pending (the members that settled before it were fulfilled),
  the batch is rejected with that member's rejection reason itself, and whatever the
  members do afterwards does not change this; the batch is fulfilled only when every
  member is fulfilled, with the members' values.
\<close>

theorem promise_all_fail_fast:
  assumes "\<forall>m \<in> set ms. m = Pending"
    and "k < length ms"
    and "\<forall>ev \<in> set pre. fst ev \<noteq> k \<and> (\<exists>v. snd ev = Resolve v)"
  shows "all_promise (aggregate (event_loop all_react (pre @ (k, Reject r) # post) (promise_all ms)))
           = Rejected r
       \<and> (\<forall>evs x. all_promise (aggregate (event_loop all_react evs (promise_all ms))) = Fulfilled x
            \<longrightarrow> members (event_loop all_react evs (promise_all ms)) = map Fulfilled x)"
proof (intro conjI allI impI)
  let ?w0 = "promise_all ms"
  let ?w1 = "event_loop all_react pre ?w0"
  let ?w2 = "settle_member all_react (k, Reject r) ?w1"
  have inv0: "all_inv ?w0"
    using assms(1) by (rule all_inv_promise_all)
  then have inv1: "all_inv ?w1"
    by (rule all_inv_event_loop)
  have len: "k < length (members ?w1)"
    using assms(2) by (simp add: length_members_event_loop promise_all_def)
  have "members ?w1 ! k = members ?w0 ! k"
    using assms(3) by (intro member_untouched) simp
  then have pend: "members ?w1 ! k = Pending"
    using assms(1,2) by (simp add: promise_all_def)
  have "\<forall>m \<in> set (members ?w0). \<not> is_rejected m"
    using assms(1) by (auto simp add: promise_all_def is_rejected_def)
  then have "\<forall>m \<in> set (members ?w1). \<not> is_rejected m"
    using assms(3) by (intro no_rejection_event_loop) simp_all
  moreover have "remaining (aggregate ?w1) = int (sum_list (map unfulfilled (members ?w1)))"
    using inv1 unfolding all_inv_def by blast
  then have "remaining (aggregate ?w1) \<noteq> 0"
    using unfulfilled_pending_member [OF len pend] by linarith
  ultimately have "all_promise (aggregate ?w1) = Pending"
    using inv1 by (simp add: all_inv_def)
  then have "all_promise (aggregate ?w2) = Rejected r"
    using len pend by (simp add: settle_member_def all_react_def reject_def Let_def)
  then have "all_promise (aggregate (event_loop all_react post ?w2)) = Rejected r"
    by (simp add: all_promise_settled_loop)
  then show "all_promise (aggregate (event_loop all_react (pre @ (k, Reject r) # post) ?w0))
      = Rejected r"
    by (simp add: event_loop_append)
next
  fix evs x
  assume "all_promise (aggregate (event_loop all_react evs (promise_all ms))) = Fulfilled x"
  moreover have "all_inv (event_loop all_react evs (promise_all ms))"
    using assms(1) by (intro all_inv_event_loop all_inv_promise_all)
  ultimately show "members (event_loop all_react evs (promise_all ms)) = map Fulfilled x"
    by (intro fulfilled_all_members)
qed

theorem promise_all_fail_fast_witness:
  "all_promise (aggregate (event_loop all_react
       [(1, Reject (JStr ''t2 failed'')), (0, Resolve (JStr ''t1 done''))]
       (promise_all [Pending, Pending])))
     = Rejected (JStr ''t2 failed'')
   \<and> (all_promise (aggregate (event_loop all_react
         [(1, Resolve (JStr ''b'')), (0, Resolve (JStr ''a''))] (promise_all [Pending, Pending])))
        = Fulfilled [JStr ''a'', JStr ''b'']
      \<and> members (event_loop all_react
         [(1, Resolve (JStr ''b'')), (0, Resolve (JStr ''a''))] (promise_all [Pending, Pending]))
        = map Fulfilled [JStr ''a'', JStr ''b''])"
proof -
  let ?ms = "[Pending, Pending] :: js_promise list"
  have h1: "\<forall>m \<in> set ?ms. m = Pending" by simp
  have h2: "1 < length ?ms" by simp
  have h3: "\<forall>ev \<in> set ([] :: event list). fst ev \<noteq> 1 \<and> (\<exists>v. snd ev = Resolve v)" by simp
  have run: "all_promise (aggregate (event_loop all_react
         [(1, Resolve (JStr ''b'')), (0, Resolve (JStr ''a''))] (promise_all ?ms)))
        = Fulfilled [JStr ''a'', JStr ''b'']"
    by (simp add: promise_all_def settle_member_def all_react_def resolve_def Let_def)
  note fail_fast =
    promise_all_fail_fast [OF h1 h2 h3, of "JStr ''t2 failed''" "[(0, Resolve (JStr ''t1 done''))]"]
  from fail_fast have rejected: "all_promise (aggregate (event_loop all_react
       [(1, Reject (JStr ''t2 failed'')), (0, Resolve (JStr ''t1 done''))] (promise_all ?ms)))
     = Rejected (JStr ''t2 failed'')"
    by simp
  from fail_fast run have "members (event_loop all_react
         [(1, Resolve (JStr ''b'')), (0, Resolve (JStr ''a''))] (promise_all ?ms))
        = map Fulfilled [JStr ''a'', JStr ''b'']"
    by blast
  with rejected run show ?thesis
    by blast
qed

lemma settled_member_stays:
  "members w ! j \<noteq> Pending \<Longrightarrow> members (event_loop react evs w) ! j = members w ! j"
proof (induction evs arbitrary: w)
  case Nil
  then show ?case by simp
next
  case (Cons ev evs)
  have step: "members (settle_member react ev w) ! j = members w ! j"
  proof (cases "fst ev = j \<and> j < length (members w)")
    case True
    then show ?thesis
      using Cons.prems by (simp add: members_settle_member perform_settled)
  next
    case False
    then show ?thesis
      by (auto simp add: members_settle_member)
  qed
  with Cons.prems have "members (settle_member react ev w) ! j \<noteq> Pending"
    by simp
  from Cons.IH [OF this] step show ?case
    by simp
qed

lemma resolved_member:
  assumes "\<forall>ev \<in> set evs. fst ev = i \<longrightarrow> snd ev = Resolve v"
    and "i \<in> fst ` set evs"
    and "i < length (members w)"
    and "members w ! i = Pending \<or> members w ! i = Fulfilled v"
  shows "members (event_loop react evs w) ! i = Fulfilled v"
  using assms
proof (induction evs arbitrary: w)
  case Nil
  then show ?case by simp
next
  case (Cons ev evs)
  let ?w = "settle_member react ev w"
  have len: "i < length (members ?w)"
    using Cons.prems(3) by (simp add: members_settle_member)
  show ?case
  proof (cases "fst ev = i")
    case True
    with Cons.prems(1) have "snd ev = Resolve v" by simp
    with True Cons.prems(3,4) have now: "members ?w ! i = Fulfilled v"
      by (auto simp add: members_settle_member resolve_def)
    then have "members (event_loop react evs ?w) ! i = members ?w ! i"
      by (intro settled_member_stays) simp
    with now show ?thesis by simp
  next
    case False
    then have same: "members ?w ! i = members w ! i"
      by (simp add: members_settle_member)
    have "i \<in> fst ` set evs"
      using Cons.prems(2) False by auto
    moreover have "\<forall>ev \<in> set evs. fst ev = i \<longrightarrow> snd ev = Resolve v"
      using Cons.prems(1) by simp
    ultimately have "members (event_loop react evs ?w) ! i = Fulfilled v"
      using len same Cons.prems(4) by (intro Cons.IH) simp_all
    then show ?thesis by simp
  qed
qed

lemma getBlogData_run:
  "getBlogData c = c @ [Log [JStr ''Fetching blog data''], Log [JStr ''Post Data fetched''],
                        Log [JStr ''Comment data fetched.''], Log [JStr ''fetch complete'']]"
  by (simp add: getBlogData_def fetchPostData_def fetchCommentData_def timer_events_def
      enumerate_eq_zip promise_all_def settle_member_def all_react_def resolve_def
      getBlogData_resume_def element_def Let_def)

text \<open>
  C4. What a function awaiting \<open>Promise.all\<close> observes is the members' values in the order
  of the members, whatever the order in which they settle: when every member is resolved
  by some timer callback, in any order of the callbacks, the batch is fulfilled with the
  values by position, \<open>getBlogData\<close> continues after its \<open>await\<close> with the first value
  as \<open>postData\<close> and the second as \<open>commentData\<close>, and the run of \<open>getBlogData\<close> logs
  the post data before the comment data.
\<close>

theorem promise_all_positional:
  assumes "\<forall>m \<in> set ms. m = Pending"
    and "length vs = length ms"
    and "\<forall>ev \<in> set evs. snd ev = Resolve (vs ! fst ev)"
    and "\<forall>i < length vs. i \<in> fst ` set evs"
  shows "all_promise (aggregate (event_loop all_react evs (promise_all ms))) = Fulfilled vs
       \<and> getBlogData_resume
           (all_promise (aggregate (event_loop all_react evs (promise_all ms)))) c
           = c @ [Log [element vs 0], Log [element vs 1], Log [JStr ''fetch complete'']]
       \<and> getBlogData c
           = c @ [Log [JStr ''Fetching blog data''], Log [JStr ''Post Data fetched''],
                  Log [JStr ''Comment data fetched.''], Log [JStr ''fetch complete'']]"
proof -
  let ?w = "event_loop all_react evs (promise_all ms)"
  have inv: "all_inv ?w"
    using assms(1) by (intro all_inv_event_loop all_inv_promise_all)
  have len: "length (members ?w) = length vs"
    by (simp add: length_members_event_loop promise_all_def assms(2))
  have "members ?w ! i = map Fulfilled vs ! i" if "i < length vs" for i
  proof -
    have "members ?w ! i = Fulfilled (vs ! i)"
    proof (rule resolved_member)
      show "\<forall>ev \<in> set evs. fst ev = i \<longrightarrow> snd ev = Resolve (vs ! i)"
        using assms(3) by auto
      show "i \<in> fst ` set evs"
        using assms(4) that by simp
      show "i < length (members (promise_all ms))"
        using that assms(2) by (simp add: promise_all_def)
      show "members (promise_all ms) ! i = Pending
          \<or> members (promise_all ms) ! i = Fulfilled (vs ! i)"
        using that assms(1,2) by (simp add: promise_all_def)
    qed
    with that show ?thesis by simp
  qed
  then have "members ?w = map Fulfilled vs"
    using len by (intro nth_equalityI) simp_all
  with inv have "all_promise (aggregate ?w) = Fulfilled vs"
    by (rule all_fulfilled_values)
  then show ?thesis
    by (simp add: getBlogData_run getBlogData_resume_def)
qed

theorem promise_all_positional_witness:
  "all_promise (aggregate (event_loop all_react
       [(1, Resolve (JStr ''Comment data fetched.'')), (0, Resolve (JStr ''Post Data fetched''))]
       (promise_all [Pending, Pending])))
     = Fulfilled [JStr ''Post Data fetched'', JStr ''Comment data fetched.'']"
proof -
  let ?ms = "[Pending, Pending] :: js_promise list"
  let ?vs = "[JStr ''Post Data fetched'', JStr ''Comment data fetched.'']"
  let ?evs = "[(1, Resolve (JStr ''Comment data fetched.'')),
               (0, Resolve (JStr ''Post Data fetched''))] :: event list"
  have h1: "\<forall>m \<in> set ?ms. m = Pending" by simp
  have h2: "length ?vs = length ?ms" by simp
  have h3: "\<forall>ev \<in> set ?evs. snd ev = Resolve (?vs ! fst ev)" by simp
  have h4: "\<forall>i < length ?vs. i \<in> fst ` set ?evs"
    by (auto simp add: less_Suc_eq)
  from promise_all_positional [OF h1 h2 h3 h4] show ?thesis by simp
qed

lemma race_react_settled: "p \<noteq> Pending \<Longrightarrow> race_react m p = p"
  by (cases p; cases m) (simp_all add: race_react_def resolve_def reject_def)

lemma race_react_pending: "race_react m Pending = m"
  by (cases m) (simp_all add: race_react_def resolve_def reject_def)

lemma race_formation_settled:
  "p \<noteq> Pending \<Longrightarrow> foldl (\<lambda>p m. race_react m p) p ms = p"
  by (induction ms) (simp_all add: race_react_settled)

lemma race_formation_first:
  "i < length ms \<Longrightarrow> ms ! i \<noteq> Pending \<Longrightarrow> \<forall>j < i. ms ! j = Pending \<Longrightarrow>
   foldl (\<lambda>p m. race_react m p) Pending ms = ms ! i"
proof (induction ms arbitrary: i)
  case Nil
  then show ?case by simp
next
  case (Cons m ms)
  show ?case
  proof (cases i)
    case 0
    with Cons.prems(2) have "m \<noteq> Pending" by simp
    then show ?thesis
      using 0 by (simp add: race_react_pending race_formation_settled)
  next
    case (Suc k)
    with Cons.prems(3) have "(m # ms) ! 0 = Pending" by blast
    then have m: "m = Pending" by simp
    have "k < length ms" "ms ! k \<noteq> Pending"
      using Cons.prems(1,2) Suc by simp_all
    moreover have "\<forall>j < k. ms ! j = Pending"
    proof (intro allI impI)
      fix j
      assume "j < k"
      then have "Suc j < i" using Suc by simp
      with Cons.prems(3) have "(m # ms) ! Suc j = Pending" by blast
      then show "ms ! j = Pending" by simp
    qed
    ultimately have "foldl (\<lambda>p m. race_react m p) Pending ms = ms ! k"
      by (rule Cons.IH)
    then show ?thesis
      using m Suc by (simp add: race_react_pending)
  qed
qed

lemma race_formation_pending:
  "\<forall>m \<in> set ms. m = Pending \<Longrightarrow> foldl (\<lambda>p m. race_react m p) Pending ms = Pending"
  by (induction ms) (simp_all add: race_react_pending)

lemma race_settled_step:
  "batch s \<noteq> Pending \<Longrightarrow> batch (fire_timer race_reaction s) = batch s"
  by (simp add: fire_timer_def race_reaction_def Let_def race_react_settled split: list.splits)

lemma race_settled_steps:
  "batch s \<noteq> Pending \<Longrightarrow> batch (fire_timers race_reaction n s) = batch s"
  by (induction n arbitrary: s) (simp_all add: race_settled_step)

lemma race_leaves_members_step:
  assumes "promise_store s = promise_store u" and "timer_queue s = timer_queue u"
  shows "promise_store (fire_timer race_reaction s) = promise_store (fire_timer no_reaction u)
       \<and> timer_queue (fire_timer race_reaction s) = timer_queue (fire_timer no_reaction u)"
  using assms
  by (simp add: fire_timer_def race_reaction_def no_reaction_def Let_def split: list.splits)

lemma race_leaves_members_steps:
  "promise_store s = promise_store u \<Longrightarrow> timer_queue s = timer_queue u \<Longrightarrow>
   promise_store (fire_timers race_reaction n s) = promise_store (fire_timers no_reaction n u)
   \<and> timer_queue (fire_timers race_reaction n s) = timer_queue (fire_timers no_reaction n u)"
proof (induction n arbitrary: s u)
  case 0
  then show ?case by simp
next
  case (Suc n)
  from race_leaves_members_step [OF Suc.prems]
  have "promise_store (fire_timer race_reaction s) = promise_store (fire_timer no_reaction u)"
    and "timer_queue (fire_timer race_reaction s) = timer_queue (fire_timer no_reaction u)"
    by simp_all
  from Suc.IH [OF this] show ?case by simp
qed

text \<open>
  As the claim is written, every member other than the first to settle would receive a
  cancellation request. In a race of the promises of \<open>fetchPostData\<close>,
  \<open>fetchCommentData\<close> and \<open>fetchData\<close> the post data wins when the first timer fires
  after two seconds. The timers of the two others are then still in the queue, as they
  are when no race is formed; they fire a second later, and the two promises are
  fulfilled with their own values.
\<close>

theorem promise_race_losers_not_cancelled_counterexample:
  "batch (fire_timers race_reaction 1
       (promise_race (map state [fetchPostData, fetchCommentData, fetchData])
          (timer_events [fetchPostData, fetchCommentData, fetchData])))
     = Fulfilled (JStr ''Post Data fetched'')
   \<and> timer_queue (fire_timers race_reaction 1
       (promise_race (map state [fetchPostData, fetchCommentData, fetchData])
          (timer_events [fetchPostData, fetchCommentData, fetchData])))
     = [(1, Resolve (JStr ''Comment data fetched.'')), (2, Resolve (JStr data_fetched))]
   \<and> timer_queue (fire_timers no_reaction 1
       (unbatched (map state [fetchPostData, fetchCommentData, fetchData])
          (timer_events [fetchPostData, fetchCommentData, fetchData])))
     = [(1, Resolve (JStr ''Comment data fetched.'')), (2, Resolve (JStr data_fetched))]
   \<and> promise_store (fire_timers race_reaction 3
       (promise_race (map state [fetchPostData, fetchCommentData, fetchData])
          (timer_events [fetchPostData, fetchCommentData, fetchData])))
     = [Fulfilled (JStr ''Post Data fetched''), Fulfilled (JStr ''Comment data fetched.''),
        Fulfilled (JStr data_fetched)]
   \<and> batch (fire_timers race_reaction 3
       (promise_race (map state [fetchPostData, fetchCommentData, fetchData])
          (timer_events [fetchPostData, fetchCommentData, fetchData])))
     = Fulfilled (JStr ''Post Data fetched'')"
  by (simp add: eval_nat_numeral timer_events_def enumerate_eq_zip fetchPostData_def
      fetchCommentData_def fetchData_def fetchData_timeout_def promise_race_def unbatched_def
      fire_timer_def race_reaction_def no_reaction_def race_react_def resolve_def Let_def)

text \<open>
  Under the race of the specification the same run ends otherwise: the first settlement
  empties the queue of the two other members' timers, and their promises stay pending.
\<close>

lemma cancelling_race_stops_losers:
  "promise_store (fire_timers cancelling_race_reaction 3
       (promise_race (map state [fetchPostData, fetchCommentData, fetchData])
          (timer_events [fetchPostData, fetchCommentData, fetchData])))
     = [Fulfilled (JStr ''Post Data fetched''), Pending, Pending]"
  by (simp add: eval_nat_numeral timer_events_def enumerate_eq_zip fetchPostData_def
      fetchCommentData_def fetchData_def fetchData_timeout_def promise_race_def
      fire_timer_def cancelling_race_reaction_def race_react_def resolve_def Let_def)

text \<open>
  C5 (amended). A \<open>Promise.race\<close> batch settles with the value or the failure of the
  member that settles first: of the first member, in the order of the members, that is
  settled when the race is formed, and otherwise of the member whose timer callback
  settles it first; the later settlements of the other members are not part of its
  outcome. The other members are ignored, not cancelled: at every moment of the run the
  promises and the queue of pending timers are what they are when no batch is formed
  over the members.
\<close>

theorem promise_race_first_settlement:
  "((\<forall>m \<in> set ms. m = Pending) \<and> k < length ms \<longrightarrow>
      batch (fire_timers race_reaction (Suc n) (promise_race ms ((k, c) # rest)))
        = perform c Pending
      \<and> perform c Pending \<noteq> Pending)
   \<and> (i < length ms \<and> ms ! i \<noteq> Pending \<and> (\<forall>j < i. ms ! j = Pending) \<longrightarrow>
      batch (fire_timers race_reaction n (promise_race ms q)) = ms ! i)
   \<and> promise_store (fire_timers race_reaction n (promise_race ms q))
       = promise_store (fire_timers no_reaction n (unbatched ms q))
   \<and> timer_queue (fire_timers race_reaction n (promise_race ms q))
       = timer_queue (fire_timers no_reaction n (unbatched ms q))"
proof (intro conjI impI)
  assume a: "(\<forall>m \<in> set ms. m = Pending) \<and> k < length ms"
  let ?s = "fire_timer race_reaction (promise_race ms ((k, c) # rest))"
  have formed: "batch (promise_race ms ((k, c) # rest)) = Pending"
    using a by (simp add: promise_race_def race_formation_pending)
  have pend: "ms ! k = Pending"
    using a by simp
  have first: "batch ?s = perform c Pending"
    using a formed
    by (simp add: fire_timer_def race_reaction_def promise_race_def Let_def race_react_pending
        pend)
  show settled: "perform c Pending \<noteq> Pending"
    by (rule perform_pending)
  from first settled have "batch (fire_timers race_reaction n ?s) = batch ?s"
    by (intro race_settled_steps) simp
  with first
  show "batch (fire_timers race_reaction (Suc n) (promise_race ms ((k, c) # rest)))
      = perform c Pending"
    by simp
next
  assume a: "i < length ms \<and> ms ! i \<noteq> Pending \<and> (\<forall>j < i. ms ! j = Pending)"
  then have formed: "batch (promise_race ms q) = ms ! i"
    by (simp add: promise_race_def race_formation_first)
  with a have "batch (fire_timers race_reaction n (promise_race ms q))
      = batch (promise_race ms q)"
    by (intro race_settled_steps) simp
  with formed show "batch (fire_timers race_reaction n (promise_race ms q)) = ms ! i"
    by simp
next
  have same: "promise_store (promise_race ms q) = promise_store (unbatched ms q)"
      "timer_queue (promise_race ms q) = timer_queue (unbatched ms q)"
    by (simp_all add: promise_race_def unbatched_def)
  from race_leaves_members_steps [OF same]
  show "promise_store (fire_timers race_reaction n (promise_race ms q))
       = promise_store (fire_timers no_reaction n (unbatched ms q))"
    and "timer_queue (fire_timers race_reaction n (promise_race ms q))
       = timer_queue (fire_timers no_reaction n (unbatched ms q))"
    by simp_all
qed

text \<open>Three pending members of which the third rejects first, and a race formed over a
  member that is already fulfilled.\<close>

theorem promise_race_first_settlement_witness:
  "batch (fire_timers race_reaction 3 (promise_race [Pending, Pending, Pending]
       [(2, Reject (JStr ''timeout'')), (0, Resolve (JStr ''a'')), (1, Resolve (JStr ''b''))]))
     = Rejected (JStr ''timeout'')
   \<and> promise_store (fire_timers race_reaction 3 (promise_race [Pending, Pending, Pending]
       [(2, Reject (JStr ''timeout'')), (0, Resolve (JStr ''a'')), (1, Resolve (JStr ''b''))]))
     = [Fulfilled (JStr ''a''), Fulfilled (JStr ''b''), Rejected (JStr ''timeout'')]
   \<and> batch (fire_timers race_reaction 1
       (promise_race [Fulfilled (JStr ''a''), Pending] [(1, Resolve (JStr ''b''))]))
     = Fulfilled (JStr ''a'')"
proof -
  let ?ms = "[Pending, Pending, Pending] :: js_promise list"
  let ?q = "[(2, Reject (JStr ''timeout'')),
             (0, Resolve (JStr ''a'')), (1, Resolve (JStr ''b''))] :: event list"
  let ?ns = "[Fulfilled (JStr ''a''), Pending] :: js_promise list"
  have h1: "(\<forall>m \<in> set ?ms. m = Pending) \<and> 2 < length ?ms" by simp
  have h2: "0 < length ?ns \<and> ?ns ! 0 \<noteq> Pending \<and> (\<forall>j < 0. ?ns ! j = Pending)" by simp
  note pending = promise_race_first_settlement
    [where ms = ?ms and k = 2 and c = "Reject (JStr ''timeout'')"
       and rest = "[(0, Resolve (JStr ''a'')), (1, Resolve (JStr ''b''))]" and n = 2 and q = ?q]
  note formed = promise_race_first_settlement
    [where ms = ?ns and i = 0 and n = 1 and q = "[(1, Resolve (JStr ''b''))]"]
  from pending h1
  have "batch (fire_timers race_reaction (Suc 2) (promise_race ?ms ?q))
      = perform (Reject (JStr ''timeout'')) Pending"
    by blast
  then have a: "batch (fire_timers race_reaction 3 (promise_race ?ms ?q))
      = Rejected (JStr ''timeout'')"
    by (simp add: reject_def eval_nat_numeral)
  from formed h2
  have b: "batch (fire_timers race_reaction 1 (promise_race ?ns [(1, Resolve (JStr ''b''))]))
      = Fulfilled (JStr ''a'')"
    by simp
  have c: "promise_store (fire_timers race_reaction 3 (promise_race ?ms ?q))
      = [Fulfilled (JStr ''a''), Fulfilled (JStr ''b''), Rejected (JStr ''timeout'')]"
    by (simp add: eval_nat_numeral promise_race_def fire_timer_def race_reaction_def
        race_react_def resolve_def reject_def Let_def)
  from a b c show ?thesis by blast
qed

end
